theory Spec2Isabelle
  imports Main
begin

section \<open>JSON values and Python dictionaries\<close>

text \<open>
  The store keeps one JSON document in a file.  \<open>json.load\<close> turns it into Python
  values: \<open>None\<close>, booleans, numbers, strings, lists and dictionaries with string
  keys.  A float is carried by its literal, since no operation of the store looks
  inside a number.  A dictionary is an association list in insertion order, as
  Python keeps it and as \<open>json.dump\<close> writes it.  A Python dictionary holds a key
  once; the operations below read the first entry of a key, and nothing that is
  proved about them needs the keys of a list to be distinct.

  A character of a \<open>string\<close> stands for one code point below 256.
\<close>

datatype json =
    JNull
  | JBool bool
  | JInt int
  | JFloat string
  | JStr string
  | JList "json list"
  | JObj "(string \<times> json) list"

type_synonym pydict = "(string \<times> json) list"

text \<open>
  The exceptions that the modelled code can raise.  \<open>KeyNotFoundError\<close> is the
  class of the repository and carries the key; the others are Python's own.
\<close>

datatype error =
    KeyNotFoundError string
  | KeyError string
  | AttributeError
  | TypeError
  | IndexError

text \<open>\<open>k in d\<close>\<close>

definition dict_contains :: "pydict \<Rightarrow> string \<Rightarrow> bool" where
  "dict_contains d k = (map_of d k \<noteq> None)"

text \<open>\<open>d.get(k, default)\<close>\<close>

definition dict_get :: "pydict \<Rightarrow> string \<Rightarrow> json \<Rightarrow> json" where
  "dict_get d k dflt = (case map_of d k of None \<Rightarrow> dflt | Some v \<Rightarrow> v)"

text \<open>
  \<open>d[k] = v\<close>: an existing key keeps its position and takes the new value, a new
  key goes to the end.
\<close>

fun dict_set :: "pydict \<Rightarrow> string \<Rightarrow> json \<Rightarrow> pydict" where
  "dict_set [] k v = [(k, v)]"
| "dict_set ((k', v') # d) k v =
     (if k' = k then (k, v) # d else (k', v') # dict_set d k v)"

text \<open>\<open>d.pop(k, None)\<close>, the dictionary afterwards (the callers drop the popped value).\<close>

fun dict_pop :: "pydict \<Rightarrow> string \<Rightarrow> pydict" where
  "dict_pop [] k = []"
| "dict_pop ((k', v') # d) k =
     (if k' = k then dict_pop d k else (k', v') # dict_pop d k)"

text \<open>
  \<open>d.setdefault(k, default)\<close>: the value now under \<open>k\<close>, and the dictionary
  afterwards.
\<close>

definition setdefault :: "pydict \<Rightarrow> string \<Rightarrow> json \<Rightarrow> json \<times> pydict" where
  "setdefault d k dflt =
     (case map_of d k of
        Some v \<Rightarrow> (v, d)
      | None \<Rightarrow> (dflt, dict_set d k dflt))"

section \<open>The key parser\<close>

text \<open>
  \<open>str.strip()\<close> removes the characters for which \<open>str.isspace\<close> holds from both
  ends.  Below 256 these are the code points 9 to 13, 28 to 32, 133 and 160.
\<close>

definition is_space :: "char \<Rightarrow> bool" where
  "is_space c = ((of_char c :: nat) \<in> {9, 10, 11, 12, 13, 28, 29, 30, 31, 32, 133, 160})"

definition strip :: "string \<Rightarrow> string" where
  "strip s = rev (dropWhile is_space (rev (dropWhile is_space s)))"

text \<open>
  \<open>s.split(sep)\<close> with a one-character separator: every occurrence of the separator
  ends a segment, empty segments are kept, and the result of splitting the empty
  string is \<open>['']\<close>.
\<close>

fun split :: "char \<Rightarrow> string \<Rightarrow> string list" where
  "split sep [] = [[]]"
| "split sep (c # cs) =
     (if c = sep then [] # split sep cs
      else (case split sep cs of
              [] \<Rightarrow> [[c]]
            | seg # segs \<Rightarrow> (c # seg) # segs))"

record DeserializedKeysDict =
  main_key :: string
  subkeys :: "string list"

text \<open>
  \<open>__deserialize_key\<close>: \<open>key[0]\<close> raises \<open>IndexError\<close> on an empty list and
  \<open>key[1:]\<close> is the rest.
\<close>

definition deserialize_key :: "string \<Rightarrow> error + DeserializedKeysDict" where
  "deserialize_key key =
     (case split CHR ''/'' (strip key) of
        [] \<Rightarrow> Inl IndexError
      | k # ks \<Rightarrow> Inr \<lparr>main_key = k, subkeys = ks\<rparr>)"

section \<open>The store\<close>

text \<open>
  The state of the store is the content of its file, taken to be a JSON object
  (the root of the document is a dictionary).  Every operation opens the file and
  loads it; a mutating operation writes the whole document back at its end.  An
  operation that raises before that point leaves the file as it was: the
  dictionary it was changing lives in memory only.  The time stamps
  \<open>last_accessed\<close> and \<open>last_modified\<close> are left out.

  A mutating operation returns its outcome and the content of the file afterwards.
\<close>

text \<open>
  The loop of \<open>get_data\<close>: \<open>data = data.get(subkey, None)\<close>, leaving the loop when
  the result is \<open>None\<close>.  A value other than a dictionary has no method \<open>get\<close>.
\<close>

fun get_loop :: "json \<Rightarrow> string list \<Rightarrow> error + json" where
  "get_loop data [] = Inr data"
| "get_loop data (subkey # rest) =
     (case data of
        JObj d \<Rightarrow>
          (let data' = dict_get d subkey JNull
           in if data' = JNull then Inr data' else get_loop data' rest)
      | _ \<Rightarrow> Inl AttributeError)"

fun is_dict :: "json \<Rightarrow> bool" where
  "is_dict (JObj d) = True"
| "is_dict _ = False"

definition get_data :: "pydict \<Rightarrow> string \<Rightarrow> error + json" where
  "get_data db key =
     (case deserialize_key key of
        Inl e \<Rightarrow> Inl e
      | Inr k \<Rightarrow>
          (let data = dict_get db (main_key k) JNull
           in if subkeys k \<noteq> [] \<and> is_dict data
              then get_loop data (subkeys k)
              else Inr data))"

text \<open>\<open>__update_database\<close>: the file now holds the new content, and the result is \<open>True\<close>.\<close>

definition update_database :: "pydict \<Rightarrow> (error + bool) \<times> pydict" where
  "update_database new_db_content = (Inr True, new_db_content)"

text \<open>
  The loop of \<open>__find_nested_data\<close> walks \<open>subkeys[:-1]\<close> with
  \<open>current_dict = current_dict.setdefault(key, {})\<close> and then changes the dictionary
  it has reached in place.  In the model the walk takes the change to make at the
  end as a function and rebuilds each dictionary on the way back.  A value other
  than a dictionary has no method \<open>setdefault\<close>.
\<close>

fun descend :: "json \<Rightarrow> string list \<Rightarrow> (json \<Rightarrow> error + json) \<Rightarrow> error + json" where
  "descend current_dict [] f = f current_dict"
| "descend current_dict (key # rest) f =
     (case current_dict of
        JObj d \<Rightarrow>
          (case setdefault d key (JObj []) of
             (child, d') \<Rightarrow>
               (case descend child rest f of
                  Inl e \<Rightarrow> Inl e
                | Inr child' \<Rightarrow> Inr (JObj (dict_set d' key child'))))
      | _ \<Rightarrow> Inl AttributeError)"

text \<open>
  The last step: \<open>current_dict.pop(subkeys[-1], None)\<close> for \<open>'delete'\<close>,
  \<open>current_dict[subkeys[-1]] = value\<close> for \<open>'set'\<close>, nothing for any other operation.
  A list has a \<open>pop\<close> of one argument only (\<open>TypeError\<close>), the other values have
  none (\<open>AttributeError\<close>); item assignment with a string key raises \<open>TypeError\<close>
  on everything but a dictionary.
\<close>

definition final_op :: "string \<Rightarrow> string \<Rightarrow> json \<Rightarrow> json \<Rightarrow> error + json" where
  "final_op operation k v current_dict =
     (if operation = ''delete'' then
        (case current_dict of
           JObj d \<Rightarrow> Inr (JObj (dict_pop d k))
         | JList xs \<Rightarrow> Inl TypeError
         | _ \<Rightarrow> Inl AttributeError)
      else if operation = ''set'' then
        (case current_dict of
           JObj d \<Rightarrow> Inr (JObj (dict_set d k v))
         | _ \<Rightarrow> Inl TypeError)
      else Inr current_dict)"

text \<open>
  \<open>__find_nested_data\<close> returns the document as changed and its own result
  (\<open>None\<close> in the first branch).  \<open>db_content[key]\<close> raises \<open>KeyError\<close> for an absent
  key.
\<close>

definition find_nested_data ::
  "pydict \<Rightarrow> string \<Rightarrow> string list \<Rightarrow> string \<Rightarrow> json \<Rightarrow> error + (pydict \<times> json)" where
  "find_nested_data db_content key subkeys' operation v =
     (if subkeys' \<noteq> [] then
        (case map_of db_content key of
           None \<Rightarrow> Inl (KeyError key)
         | Some current_dict \<Rightarrow>
             (case descend current_dict (butlast subkeys')
                     (final_op operation (last subkeys') v) of
                Inl e \<Rightarrow> Inl e
              | Inr c \<Rightarrow> Inr (dict_set db_content key c, JNull)))
      else
        (case map_of db_content key of
           None \<Rightarrow> Inl (KeyError key)
         | Some x \<Rightarrow> Inr (db_content, x)))"

definition set_data :: "pydict \<Rightarrow> string \<Rightarrow> json \<Rightarrow> (error + bool) \<times> pydict" where
  "set_data db key v =
     (case deserialize_key key of
        Inl e \<Rightarrow> (Inl e, db)
      | Inr k \<Rightarrow>
          if \<not> dict_contains db (main_key k) then (Inl (KeyNotFoundError (main_key k)), db)
          else if subkeys k \<noteq> [] then
            (case find_nested_data db (main_key k) (subkeys k) ''set'' v of
               Inl e \<Rightarrow> (Inl e, db)
             | Inr (db', r) \<Rightarrow> update_database db')
          else update_database (dict_set db (main_key k) v))"

definition delete_data :: "pydict \<Rightarrow> string \<Rightarrow> (error + bool) \<times> pydict" where
  "delete_data db key =
     (case deserialize_key key of
        Inl e \<Rightarrow> (Inl e, db)
      | Inr k \<Rightarrow>
          if subkeys k \<noteq> [] then
            (case find_nested_data db (main_key k) (subkeys k) ''delete'' (JStr '''') of
               Inl e \<Rightarrow> (Inl e, db)
             | Inr (db', r) \<Rightarrow> update_database db')
          else update_database (dict_pop db (main_key k)))"

section \<open>Paths through a document\<close>

text \<open>
  The notions that the properties below are stated with; none of them is part of
  the store.

  \<open>join sep segs\<close> is Python's \<open>sep.join(segs)\<close>, the inverse of \<open>split\<close>.
\<close>

fun join :: "char \<Rightarrow> string list \<Rightarrow> string" where
  "join sep [] = []"
| "join sep [seg] = seg"
| "join sep (seg # seg' # segs) = seg @ sep # join sep (seg' # segs)"

text \<open>
  \<open>lookup_path x ks\<close> follows the keys \<open>ks\<close> down from \<open>x\<close> through dictionaries.
  It tells a key that is absent (\<open>None\<close>) from a key whose value is \<open>null\<close>
  (\<open>Some JNull\<close>), which \<open>get_data\<close> does not.
\<close>

fun lookup_path :: "json \<Rightarrow> string list \<Rightarrow> json option" where
  "lookup_path x [] = Some x"
| "lookup_path x (k # ks) =
     (case x of
        JObj d \<Rightarrow> (case map_of d k of None \<Rightarrow> None | Some y \<Rightarrow> lookup_path y ks)
      | _ \<Rightarrow> None)"

text \<open>
  \<open>chain ks x\<close> is the value \<open>x\<close> wrapped in one fresh dictionary per key of \<open>ks\<close>,
  each holding its key and nothing else: \<open>chain ['a', 'b'] x\<close> is \<open>{'a': {'b': x}}\<close>.
\<close>

fun chain :: "string list \<Rightarrow> json \<Rightarrow> json" where
  "chain [] x = x"
| "chain (k # ks) x = JObj [(k, chain ks x)]"

text \<open>
  \<open>navigable x ks\<close>: following \<open>ks\<close> down from \<open>x\<close>, every value that is there is a
  dictionary, up to and including the one that \<open>ks\<close> ends in; the walk may stop
  early at a key that is absent.
\<close>

fun navigable :: "json \<Rightarrow> string list \<Rightarrow> bool" where
  "navigable x [] = is_dict x"
| "navigable x (k # ks) =
     (case x of
        JObj d \<Rightarrow> (case map_of d k of None \<Rightarrow> True | Some y \<Rightarrow> navigable y ks)
      | _ \<Rightarrow> False)"

section \<open>Basic facts\<close>

lemma split_not_Nil: "split sep s \<noteq> []"
  by (induction s) (auto split: list.splits)

lemma deserialize_key_total:
  "deserialize_key key =
     Inr \<lparr>main_key = hd (split CHR ''/'' (strip key)),
          subkeys = tl (split CHR ''/'' (strip key))\<rparr>"
  using split_not_Nil [of "CHR ''/''" "strip key"]
  by (cases "split CHR ''/'' (strip key)") (simp_all add: deserialize_key_def)

subsection \<open>Splitting and joining\<close>

lemma join_Cons: "segs \<noteq> [] \<Longrightarrow> join sep (seg # segs) = seg @ sep # join sep segs"
  by (cases segs) simp_all

lemma join_split: "join sep (split sep s) = s"
proof (induction s)
  case Nil
  show ?case by simp
next
  case (Cons c cs)
  obtain seg segs where r: "split sep cs = seg # segs"
    using split_not_Nil [of sep cs] by (cases "split sep cs") auto
  show ?case
  proof (cases "c = sep")
    case True
    with Cons show ?thesis by (simp add: join_Cons split_not_Nil)
  next
    case False
    from Cons r have "join sep (seg # segs) = cs" by simp
    with False r show ?thesis by (cases segs) simp_all
  qed
qed

lemma split_segments_no_sep: "seg \<in> set (split sep s) \<Longrightarrow> sep \<notin> set seg"
proof (induction s arbitrary: seg)
  case Nil
  then show ?case by simp
next
  case (Cons c cs)
  then show ?case
    by (cases "split sep cs") (auto split: if_splits)
qed

lemma split_without_sep: "sep \<notin> set s \<Longrightarrow> split sep s = [s]"
  by (induction s) auto

lemma hd_split_empty: "(hd (split sep s) = []) = (s = [] \<or> hd s = sep)"
  by (cases s) (auto split: list.splits)

subsection \<open>Stripping\<close>

lemma dropWhile_strip:
  "dropWhile is_space key
     = strip key @ rev (takeWhile is_space (rev (dropWhile is_space key)))"
proof -
  let ?d = "dropWhile is_space key"
  have "rev (takeWhile is_space (rev ?d) @ dropWhile is_space (rev ?d)) = rev (rev ?d)"
    by (simp only: takeWhile_dropWhile_id)
  then have "rev (dropWhile is_space (rev ?d)) @ rev (takeWhile is_space (rev ?d)) = ?d"
    by (simp only: rev_append rev_rev_ident)
  then show ?thesis by (simp only: strip_def)
qed

lemma strip_decomp:
  "key = takeWhile is_space key @ strip key
           @ rev (takeWhile is_space (rev (dropWhile is_space key)))"
proof -
  have "key = takeWhile is_space key @ dropWhile is_space key"
    by simp
  with dropWhile_strip [of key] show ?thesis by metis
qed

lemma strip_last: "strip key \<noteq> [] \<Longrightarrow> \<not> is_space (last (strip key))"
  by (simp add: strip_def last_rev hd_dropWhile)

lemma strip_hd:
  assumes "strip key \<noteq> []"
  shows "\<not> is_space (hd (strip key))"
proof -
  let ?d = "dropWhile is_space key"
  obtain r where d: "?d = strip key @ r"
    using dropWhile_strip [of key] by blast
  with assms have "?d \<noteq> []" by simp
  then have "\<not> is_space (hd ?d)" by (rule hd_dropWhile)
  moreover from d assms have "hd ?d = hd (strip key)" by simp
  ultimately show ?thesis by simp
qed

lemma set_strip: "set (strip key) \<subseteq> set key"
proof -
  have "set (strip key) \<subseteq> set (dropWhile is_space key)"
    unfolding strip_def using set_dropWhileD by fastforce
  also have "\<dots> \<subseteq> set key" using set_dropWhileD by fastforce
  finally show ?thesis .
qed

lemma list_all_takeWhile: "list_all P (takeWhile P xs)"
  by (induction xs) simp_all

subsection \<open>Dictionaries\<close>

lemma map_of_dict_set: "map_of (dict_set d k v) = (map_of d)(k \<mapsto> v)"
  by (induction d) (auto simp: fun_eq_iff)

lemma map_of_dict_pop: "map_of (dict_pop d k) = (map_of d)(k := None)"
  by (induction d) (auto simp: fun_eq_iff)

lemma dict_pop_absent: "map_of d k = None \<Longrightarrow> dict_pop d k = d"
  by (induction d) (auto split: if_splits)

lemma dict_set_twice: "dict_set (dict_set d k v) k w = dict_set d k w"
  by (induction d) auto

lemma dict_pop_twice: "dict_pop (dict_pop d k) k = dict_pop d k"
  by (simp add: dict_pop_absent map_of_dict_pop)

lemma dict_pop_dict_set: "dict_pop (dict_set d k v) k = dict_pop d k"
  by (induction d) auto

lemma setdefault_dict_set: "setdefault (dict_set d k x) k dflt = (x, dict_set d k x)"
  by (simp add: setdefault_def map_of_dict_set)

lemma setdefault_snd_set: "dict_set (snd (setdefault d k dflt)) k x = dict_set d k x"
  by (simp add: setdefault_def dict_set_twice split: option.splits)

subsection \<open>The walk down the sub-keys\<close>

lemma descend_Cons_Inr:
  assumes "descend cur (k # ks) f = Inr c"
  obtains d child c' where "cur = JObj d"
    and "child = fst (setdefault d k (JObj []))"
    and "descend child ks f = Inr c'"
    and "c = JObj (dict_set d k c')"
proof -
  from assms obtain d where cur: "cur = JObj d"
    by (cases cur) simp_all
  obtain child d' where sd: "setdefault d k (JObj []) = (child, d')"
    by (cases "setdefault d k (JObj [])") blast
  from assms cur sd obtain c' where c': "descend child ks f = Inr c'"
    and c: "c = JObj (dict_set d' k c')"
    by (auto split: sum.splits)
  from sd have "dict_set d' k c' = dict_set d k c'"
    using setdefault_snd_set [of d k "JObj []" c'] by simp
  with cur sd c' c that show thesis by simp
qed

lemma descend_Cons_eq:
  "descend (JObj d) (k # ks) f =
     (case descend (fst (setdefault d k (JObj []))) ks f of
        Inl e \<Rightarrow> Inl e
      | Inr c' \<Rightarrow> Inr (JObj (dict_set d k c')))"
  using setdefault_snd_set [of d k "JObj []"]
  by (cases "setdefault d k (JObj [])") (auto split: sum.splits)

lemma descend_idem:
  assumes "descend cur ks f = Inr c" and "\<And>x y. f x = Inr y \<Longrightarrow> f y = Inr y"
  shows "descend c ks f = Inr c"
  using assms(1)
proof (induction ks arbitrary: cur c)
  case Nil
  then show ?case by (simp add: assms(2))
next
  case (Cons k ks)
  from Cons.prems obtain d child c' where cur: "cur = JObj d"
    and step: "descend child ks f = Inr c'" and c: "c = JObj (dict_set d k c')"
    by (rule descend_Cons_Inr)
  from Cons.IH [OF step] have "descend c' ks f = Inr c'" .
  then show ?case
    by (simp add: c descend_Cons_eq setdefault_dict_set dict_set_twice)
qed

lemma final_op_delete_idem:
  "final_op ''delete'' s v x = Inr y \<Longrightarrow> final_op ''delete'' s v y = Inr y"
  by (cases x) (auto simp: final_op_def dict_pop_twice)

text \<open>
  From here on a step of the walk is unfolded by \<open>descend_Cons_eq\<close> and
  \<open>descend_Cons_other\<close>, not by the defining equation.
\<close>

lemma descend_Cons_other:
  "\<not> is_dict cur \<Longrightarrow> descend cur (k # ks) f = Inl AttributeError"
  by (cases cur) simp_all

declare descend.simps(2) [simp del]

subsection \<open>Paths\<close>

lemma lookup_path_append:
  "lookup_path x (P @ Q) = (case lookup_path x P of None \<Rightarrow> None | Some y \<Rightarrow> lookup_path y Q)"
  by (induction P arbitrary: x) (auto split: json.splits option.splits)

lemma lookup_path_empty_dict: "P \<noteq> [] \<Longrightarrow> lookup_path (JObj []) P = None"
  by (cases P) simp_all

lemma navigable_empty_dict: "navigable (JObj []) P"
  by (cases P) simp_all

subsection \<open>What the walk leaves behind\<close>

lemma descend_final_level:
  "descend cur P f = Inr c \<Longrightarrow> \<exists>x y. f x = Inr y \<and> lookup_path c P = Some y"
proof (induction P arbitrary: cur c)
  case Nil
  then show ?case by auto
next
  case (Cons k P)
  from Cons.prems obtain d child c' where step: "descend child P f = Inr c'"
    and c: "c = JObj (dict_set d k c')"
    by (rule descend_Cons_Inr)
  from Cons.IH [OF step] show ?case
    by (simp add: c map_of_dict_set)
qed

lemma descend_existing_level:
  "descend cur P f = Inr c \<Longrightarrow> lookup_path cur P = Some x
     \<Longrightarrow> \<exists>y. f x = Inr y \<and> lookup_path c P = Some y"
proof (induction P arbitrary: cur c)
  case Nil
  then show ?case by auto
next
  case (Cons k P)
  from Cons.prems(1) obtain d child c' where cur: "cur = JObj d"
    and child: "child = fst (setdefault d k (JObj []))"
    and step: "descend child P f = Inr c'"
    and c: "c = JObj (dict_set d k c')"
    by (rule descend_Cons_Inr)
  from Cons.prems(2) cur obtain z where z: "map_of d k = Some z" and zx: "lookup_path z P = Some x"
    by (auto split: option.splits)
  from z child have "child = z" by (simp add: setdefault_def)
  with step zx Cons.IH have "\<exists>y. f x = Inr y \<and> lookup_path c' P = Some y" by blast
  then show ?case by (simp add: c map_of_dict_set)
qed

lemma descend_missing_level:
  "descend cur (P @ R) f = Inr c \<Longrightarrow> P \<noteq> [] \<Longrightarrow> lookup_path cur P = None
     \<Longrightarrow> \<exists>y. descend (JObj []) R f = Inr y \<and> lookup_path c P = Some y"
proof (induction P arbitrary: cur c)
  case Nil
  then show ?case by simp
next
  case (Cons k P)
  from Cons.prems(1) have "descend cur (k # (P @ R)) f = Inr c" by simp
  then obtain d child c' where cur: "cur = JObj d"
    and child: "child = fst (setdefault d k (JObj []))"
    and step: "descend child (P @ R) f = Inr c'"
    and c: "c = JObj (dict_set d k c')"
    by (rule descend_Cons_Inr)
  have up: "lookup_path c (k # P) = lookup_path c' P"
    by (simp add: c map_of_dict_set)
  show ?case
  proof (cases "P = []")
    case True
    with Cons.prems(3) cur have "map_of d k = None"
      by (auto split: option.splits)
    with child have "child = JObj []" by (simp add: setdefault_def)
    with step True up show ?thesis by simp
  next
    case False
    have "lookup_path child P = None"
    proof (cases "map_of d k")
      case None
      with child have "child = JObj []" by (simp add: setdefault_def)
      with False show ?thesis by (simp add: lookup_path_empty_dict)
    next
      case (Some z)
      with child have "child = z" by (simp add: setdefault_def)
      with Some Cons.prems(3) cur show ?thesis by simp
    qed
    with Cons.IH [OF step False] up show ?thesis by simp
  qed
qed

lemma descend_fresh_set:
  "descend (JObj []) R (final_op ''set'' s v) = Inr (chain (R @ [s]) v)"
  by (induction R) (simp_all add: final_op_def descend_Cons_eq setdefault_def)

lemma descend_fresh_delete:
  "descend (JObj []) R (final_op ''delete'' s v) = Inr (chain R (JObj []))"
  by (induction R) (simp_all add: final_op_def descend_Cons_eq setdefault_def)

subsection \<open>When the walk succeeds\<close>

lemma descend_succeeds_iff:
  assumes "\<And>x. (\<exists>y. f x = Inr y) = is_dict x"
  shows "(\<exists>c. descend cur P f = Inr c) = navigable cur P"
proof (induction P arbitrary: cur)
  case Nil
  show ?case by (simp add: assms)
next
  case (Cons k P)
  show ?case
  proof (cases cur)
    case (JObj d)
    show ?thesis
    proof (cases "map_of d k")
      case None
      then have "fst (setdefault d k (JObj [])) = JObj []" by (simp add: setdefault_def)
      moreover from Cons.IH [of "JObj []"] obtain c where "descend (JObj []) P f = Inr c"
        by (auto simp: navigable_empty_dict)
      ultimately show ?thesis using None JObj by (simp add: descend_Cons_eq)
    next
      case (Some z)
      then have "fst (setdefault d k (JObj [])) = z" by (simp add: setdefault_def)
      with Cons.IH [of z] Some JObj show ?thesis
        by (auto simp: descend_Cons_eq split: sum.splits)
    qed
  qed (simp_all add: descend_Cons_other)
qed

lemma final_op_delete_succeeds: "(\<exists>y. final_op ''delete'' s v x = Inr y) = is_dict x"
  by (cases x) (simp_all add: final_op_def)

lemma final_op_set_succeeds: "(\<exists>y. final_op ''set'' s v x = Inr y) = is_dict x"
  by (cases x) (simp_all add: final_op_def)

lemma descend_delete_error:
  "descend cur P (final_op ''delete'' s v) = Inl e \<Longrightarrow> e = AttributeError \<or> e = TypeError"
proof (induction P arbitrary: cur)
  case Nil
  then show ?case by (cases cur) (auto simp: final_op_def)
next
  case (Cons k P)
  then show ?case
    by (cases cur) (auto simp: descend_Cons_eq descend_Cons_other split: sum.splits)
qed

lemma descend_is_dict:
  assumes "descend cur P (final_op ''set'' s v) = Inr c"
  shows "is_dict c"
proof (cases P)
  case Nil
  with assms show ?thesis by (cases cur) (auto simp: final_op_def)
next
  case (Cons k P')
  with assms have "descend cur (k # P') (final_op ''set'' s v) = Inr c" by simp
  then obtain d c' where "c = JObj (dict_set d k c')" by (rule descend_Cons_Inr)
  then show ?thesis by simp
qed

subsection \<open>Reading after writing, deleting after writing\<close>

lemma get_loop_descend_set:
  "descend cur P (final_op ''set'' s v) = Inr c \<Longrightarrow> get_loop c (P @ [s]) = Inr v"
proof (induction P arbitrary: cur c)
  case Nil
  then show ?case
    by (cases cur) (auto simp: final_op_def dict_get_def map_of_dict_set)
next
  case (Cons k P)
  from Cons.prems obtain d child c' where step: "descend child P (final_op ''set'' s v) = Inr c'"
    and c: "c = JObj (dict_set d k c')"
    by (rule descend_Cons_Inr)
  from step have "is_dict c'" by (rule descend_is_dict)
  then have "c' \<noteq> JNull" by auto
  with Cons.IH [OF step] show ?case
    by (simp add: c dict_get_def map_of_dict_set)
qed

lemma descend_delete_after_set:
  "descend cur P (final_op ''set'' s v) = Inr c1
     \<Longrightarrow> descend c1 P (final_op ''delete'' s w) = descend cur P (final_op ''delete'' s w)"
proof (induction P arbitrary: cur c1)
  case Nil
  then show ?case
    by (cases cur) (auto simp: final_op_def dict_pop_dict_set)
next
  case (Cons k P)
  from Cons.prems obtain d child c' where cur: "cur = JObj d"
    and child: "child = fst (setdefault d k (JObj []))"
    and step: "descend child P (final_op ''set'' s v) = Inr c'"
    and c1: "c1 = JObj (dict_set d k c')"
    by (rule descend_Cons_Inr)
  from Cons.IH [OF step]
  have "descend c' P (final_op ''delete'' s w) = descend child P (final_op ''delete'' s w)" .
  then show ?case
    by (simp add: cur c1 child descend_Cons_eq setdefault_dict_set dict_set_twice
             split: sum.splits)
qed

subsection \<open>The operations on a key with sub-keys\<close>

lemma delete_data_nested_eq:
  assumes "deserialize_key key = Inr k" and "subkeys k \<noteq> []"
    and "map_of D (main_key k) = Some cur"
  shows "delete_data D key =
     (case descend cur (butlast (subkeys k)) (final_op ''delete'' (last (subkeys k)) (JStr '''')) of
        Inl e \<Rightarrow> (Inl e, D)
      | Inr c \<Rightarrow> (Inr True, dict_set D (main_key k) c))"
  using assms
  by (simp add: delete_data_def find_nested_data_def update_database_def split: sum.splits)

lemma set_data_nested_eq:
  assumes "deserialize_key key = Inr k" and "subkeys k \<noteq> []"
    and "map_of D (main_key k) = Some cur"
  shows "set_data D key v =
     (case descend cur (butlast (subkeys k)) (final_op ''set'' (last (subkeys k)) v) of
        Inl e \<Rightarrow> (Inl e, D)
      | Inr c \<Rightarrow> (Inr True, dict_set D (main_key k) c))"
  using assms
  by (simp add: set_data_def find_nested_data_def update_database_def dict_contains_def
           split: sum.splits)

lemma set_data_root_eq:
  assumes "deserialize_key key = Inr k" and "subkeys k = []"
    and "dict_contains D (main_key k)"
  shows "set_data D key v = (Inr True, dict_set D (main_key k) v)"
  using assms by (simp add: set_data_def update_database_def)

section \<open>Writing under an absent root key\<close>

text \<open>
  Claim C2.  When the root key of the parsed key is not in the document,
  \<open>set_data\<close> raises \<open>KeyNotFoundError\<close> with that root key, whatever the sub-keys
  are, and the file keeps the document it had: no root key is created and nothing
  is written.
\<close>

theorem set_data_absent_root:
  assumes "deserialize_key key = Inr k" and "\<not> dict_contains D (main_key k)"
  shows "set_data D key v = (Inl (KeyNotFoundError (main_key k)), D)"
  using assms by (simp add: set_data_def)

theorem set_data_absent_root_witness:
  "deserialize_key ''missing/x'' = Inr \<lparr>main_key = ''missing'', subkeys = [''x'']\<rparr>
   \<and> \<not> dict_contains [(''users'', JStr ''u'')] ''missing''
   \<and> set_data [(''users'', JStr ''u'')] ''missing/x'' (JStr ''v'')
       = (Inl (KeyNotFoundError ''missing''), [(''users'', JStr ''u'')])"
proof -
  have k: "deserialize_key ''missing/x'' = Inr \<lparr>main_key = ''missing'', subkeys = [''x'']\<rparr>"
    by code_simp
  have a: "\<not> dict_contains [(''users'', JStr ''u'')]
             (main_key \<lparr>main_key = ''missing'', subkeys = [''x'']\<rparr>)"
    by code_simp
  from set_data_absent_root [OF k a, of "JStr ''v''"] k a show ?thesis by simp
qed

section \<open>Reading at the root\<close>

text \<open>
  Claim C7.  \<open>get_data\<close> on a root key that is not in the document returns \<open>None\<close>,
  the not-found value.  When the root key is there, its value is not a dictionary
  and the key has sub-keys, the sub-keys are ignored and the value of the root key
  is returned.
\<close>

theorem get_data_root_only:
  assumes "deserialize_key key = Inr k"
  shows "(\<not> dict_contains D (main_key k) \<longrightarrow> get_data D key = Inr JNull)
       \<and> (\<forall>x. map_of D (main_key k) = Some x \<and> \<not> is_dict x \<and> subkeys k \<noteq> []
              \<longrightarrow> get_data D key = Inr x)"
  using assms by (auto simp: get_data_def dict_get_def dict_contains_def)

theorem get_data_root_only_witness:
  "deserialize_key ''name/first'' = Inr \<lparr>main_key = ''name'', subkeys = [''first'']\<rparr>
   \<and> \<not> dict_contains [(''title'', JStr ''x'')] ''name''
   \<and> get_data [(''title'', JStr ''x'')] ''name/first'' = Inr JNull
   \<and> map_of [(''name'', JStr ''ada'')] ''name'' = Some (JStr ''ada'')
   \<and> \<not> is_dict (JStr ''ada'')
   \<and> get_data [(''name'', JStr ''ada'')] ''name/first'' = Inr (JStr ''ada'')"
proof -
  let ?k = "\<lparr>main_key = ''name'', subkeys = [''first'']\<rparr>"
  have k: "deserialize_key ''name/first'' = Inr ?k"
    by code_simp
  have a: "\<not> dict_contains [(''title'', JStr ''x'')] (main_key ?k)"
    by code_simp
  have p: "map_of [(''name'', JStr ''ada'')] (main_key ?k) = Some (JStr ''ada'')
           \<and> \<not> is_dict (JStr ''ada'') \<and> subkeys ?k \<noteq> []"
    by simp
  from get_data_root_only [OF k, of "[(''title'', JStr ''x'')]"] a
  have 1: "get_data [(''title'', JStr ''x'')] ''name/first'' = Inr JNull"
    by blast
  from get_data_root_only [OF k, of "[(''name'', JStr ''ada'')]"] p
  have 2: "get_data [(''name'', JStr ''ada'')] ''name/first'' = Inr (JStr ''ada'')"
    by blast
  from k a p 1 2 show ?thesis by simp
qed

section \<open>The result of a mutating operation\<close>

text \<open>
  Claim C9.  When \<open>set_data\<close> or \<open>delete_data\<close> returns without raising, it returns
  \<open>True\<close>: both end in \<open>__update_database\<close>, which returns \<open>True\<close> for every document
  it is given, so no path returns \<open>False\<close>.
\<close>

theorem mutation_returns_True:
  "(set_data D key v = (Inr b, D') \<longrightarrow> b)
   \<and> (delete_data E key' = (Inr c, E') \<longrightarrow> c)
   \<and> update_database F = (Inr True, F)"
  by (auto simp: set_data_def delete_data_def update_database_def
           split: sum.splits if_splits prod.splits)

theorem mutation_returns_True_witness:
  "set_data [(''a'', JStr ''x'')] ''a'' (JStr ''y'') = (Inr True, [(''a'', JStr ''y'')])
   \<and> delete_data [(''a'', JStr ''x'')] ''a'' = (Inr True, [])
   \<and> update_database [(''a'', JStr ''x'')] = (Inr True, [(''a'', JStr ''x'')])"
proof -
  have s: "set_data [(''a'', JStr ''x'')] ''a'' (JStr ''y'') = (Inr True, [(''a'', JStr ''y'')])"
    by code_simp
  have d: "delete_data [(''a'', JStr ''x'')] ''a'' = (Inr True, [])"
    by code_simp
  from mutation_returns_True
         [of "[(''a'', JStr ''x'')]" "''a''" "JStr ''y''" True "[(''a'', JStr ''y'')]"
             "[(''a'', JStr ''x'')]" "''a''" True "[]" "[(''a'', JStr ''x'')]"]
       s d
  show ?thesis by simp
qed

section \<open>Deleting below an absent root key\<close>

text \<open>
  Claim C10.  When the root key is not in the document and the key has sub-keys,
  \<open>delete_data\<close> raises Python's \<open>KeyError\<close> for the root key, not
  \<open>KeyNotFoundError\<close>, and does not return: \<open>__find_nested_data\<close> reads
  \<open>db_content[key]\<close> with no test that the key is there.  The file keeps the
  document it had.
\<close>

theorem delete_data_absent_root_nested:
  assumes "deserialize_key key = Inr k" and "subkeys k \<noteq> []"
    and "\<not> dict_contains D (main_key k)"
  shows "delete_data D key = (Inl (KeyError (main_key k)), D)"
  using assms by (simp add: delete_data_def find_nested_data_def dict_contains_def)

theorem delete_data_absent_root_nested_witness:
  "deserialize_key ''missing/x'' = Inr \<lparr>main_key = ''missing'', subkeys = [''x'']\<rparr>
   \<and> \<not> dict_contains [(''users'', JObj [])] ''missing''
   \<and> delete_data [(''users'', JObj [])] ''missing/x''
       = (Inl (KeyError ''missing''), [(''users'', JObj [])])"
proof -
  let ?k = "\<lparr>main_key = ''missing'', subkeys = [''x'']\<rparr>"
  have k: "deserialize_key ''missing/x'' = Inr ?k"
    by code_simp
  have n: "subkeys ?k \<noteq> []"
    by simp
  have a: "\<not> dict_contains [(''users'', JObj [])] (main_key ?k)"
    by code_simp
  from delete_data_absent_root_nested [OF k n a] k a show ?thesis by simp
qed

section \<open>Reading below a value that is not a dictionary\<close>

text \<open>
  Claim C3.  The claim is that \<open>get_data\<close> never raises when the value of the root
  key is a dictionary and the key has sub-keys: a value on the way that is not a
  dictionary, or a sub-key that is absent, ends the walk with the not-found value.
  The loop tests for \<open>None\<close> only.  In the document \<open>{"a": {"b": "x"}}\<close> the key
  \<open>a/b/c\<close> reaches the string \<open>"x"\<close> with the sub-key \<open>c\<close> still to come, and
  \<open>"x".get\<close> raises \<open>AttributeError\<close>.
\<close>

theorem get_data_scalar_on_path:
  "get_data [(''a'', JObj [(''b'', JStr ''x'')])] ''a/b/c'' = Inl AttributeError"
  by code_simp

section \<open>What the parser returns\<close>

text \<open>
  Claim C8.  Parsing never fails.  The root key followed by the sub-keys is the
  result of splitting the stripped key at \<open>/\<close>.  The key is a run of whitespace,
  then the segments joined by \<open>/\<close> in their order, then a run of whitespace; what
  lies between the two runs neither starts nor ends with whitespace; no segment
  contains \<open>/\<close>; and a key without \<open>/\<close> has no sub-keys.
\<close>

theorem deserialize_key_trim_split:
  "\<exists>k l r. deserialize_key key = Inr k
     \<and> main_key k # subkeys k = split CHR ''/'' (strip key)
     \<and> key = l @ join CHR ''/'' (main_key k # subkeys k) @ r
     \<and> list_all is_space l \<and> list_all is_space r
     \<and> (join CHR ''/'' (main_key k # subkeys k) \<noteq> []
          \<longrightarrow> \<not> is_space (hd (join CHR ''/'' (main_key k # subkeys k)))
            \<and> \<not> is_space (last (join CHR ''/'' (main_key k # subkeys k))))
     \<and> (\<forall>seg \<in> set (main_key k # subkeys k). CHR ''/'' \<notin> set seg)
     \<and> (CHR ''/'' \<notin> set key \<longrightarrow> subkeys k = [])"
proof -
  let ?segs = "split CHR ''/'' (strip key)"
  let ?k = "\<lparr>main_key = hd ?segs, subkeys = tl ?segs\<rparr>"
  let ?l = "takeWhile is_space key"
  let ?r = "rev (takeWhile is_space (rev (dropWhile is_space key)))"
  have segs: "main_key ?k # subkeys ?k = ?segs"
    using split_not_Nil [of "CHR ''/''" "strip key"] by simp
  have j: "join CHR ''/'' (main_key ?k # subkeys ?k) = strip key"
    by (simp only: segs join_split)
  have 1: "deserialize_key key = Inr ?k"
    by (rule deserialize_key_total)
  have 2: "key = ?l @ join CHR ''/'' (main_key ?k # subkeys ?k) @ ?r"
    by (simp only: j) (rule strip_decomp)
  have 3: "list_all is_space ?l"
    by (rule list_all_takeWhile)
  have 4: "list_all is_space ?r"
    using list_all_takeWhile [of is_space "rev (dropWhile is_space key)"]
    by (simp add: list_all_iff)
  have 5: "join CHR ''/'' (main_key ?k # subkeys ?k) \<noteq> []
          \<longrightarrow> \<not> is_space (hd (join CHR ''/'' (main_key ?k # subkeys ?k)))
            \<and> \<not> is_space (last (join CHR ''/'' (main_key ?k # subkeys ?k)))"
    by (simp only: j) (simp add: strip_hd strip_last)
  have 6: "\<forall>seg \<in> set (main_key ?k # subkeys ?k). CHR ''/'' \<notin> set seg"
    by (simp only: segs) (blast dest: split_segments_no_sep)
  have 7: "CHR ''/'' \<notin> set key \<longrightarrow> subkeys ?k = []"
  proof
    assume "CHR ''/'' \<notin> set key"
    with set_strip [of key] have "CHR ''/'' \<notin> set (strip key)" by blast
    then have "?segs = [strip key]" by (rule split_without_sep)
    then show "subkeys ?k = []" by simp
  qed
  from 1 segs 2 3 4 5 6 7 show ?thesis by blast
qed

theorem deserialize_key_trim_split_witness:
  "CHR ''/'' \<notin> set '' users ''
   \<and> (\<exists>k. deserialize_key '' users '' = Inr k \<and> subkeys k = []
          \<and> (\<forall>seg \<in> set (main_key k # subkeys k). CHR ''/'' \<notin> set seg))"
proof -
  have n: "CHR ''/'' \<notin> set '' users ''" by simp
  from deserialize_key_trim_split [of "'' users ''"] n show ?thesis by blast
qed

section \<open>The root key may be empty\<close>

text \<open>
  Claim C4 says that the root key is never empty.  The parser has no such test:
  the key \<open>/a\<close> has the empty root key and the sub-key \<open>a\<close>.
\<close>

theorem deserialize_key_empty_root:
  "deserialize_key ''/a'' = Inr \<lparr>main_key = '''', subkeys = [''a'']\<rparr>"
  by code_simp

text \<open>
  Claim C4 as amended.  The root key is empty exactly when the stripped key is
  empty or starts with \<open>/\<close>.  The root key and the sub-keys, joined by \<open>/\<close> in their
  order, are the stripped key.  The first sub-key is looked up in the value of the
  root key: when that value is a dictionary, \<open>get_data\<close> reads the first sub-key in
  it and goes on from there with the other sub-keys.
\<close>

theorem deserialize_key_root_and_order:
  assumes "deserialize_key key = Inr k"
  shows "(main_key k = [] \<longleftrightarrow> strip key = [] \<or> hd (strip key) = CHR ''/'')
     \<and> join CHR ''/'' (main_key k # subkeys k) = strip key
     \<and> (\<forall>D m s rest. map_of D (main_key k) = Some (JObj m) \<and> subkeys k = s # rest
           \<longrightarrow> get_data D key
                = (if dict_get m s JNull = JNull then Inr JNull
                   else get_loop (dict_get m s JNull) rest))"
proof -
  let ?segs = "split CHR ''/'' (strip key)"
  from assms have k: "k = \<lparr>main_key = hd ?segs, subkeys = tl ?segs\<rparr>"
    by (simp add: deserialize_key_total)
  have segs: "main_key k # subkeys k = ?segs"
    using split_not_Nil [of "CHR ''/''" "strip key"] by (simp add: k)
  have 1: "main_key k = [] \<longleftrightarrow> strip key = [] \<or> hd (strip key) = CHR ''/''"
    by (simp add: k hd_split_empty)
  have 2: "join CHR ''/'' (main_key k # subkeys k) = strip key"
    by (simp only: segs join_split)
  have 3: "\<forall>D m s rest. map_of D (main_key k) = Some (JObj m) \<and> subkeys k = s # rest
           \<longrightarrow> get_data D key
                = (if dict_get m s JNull = JNull then Inr JNull
                   else get_loop (dict_get m s JNull) rest)"
    using assms by (simp add: get_data_def dict_get_def Let_def)
  from 1 2 3 show ?thesis by blast
qed

theorem deserialize_key_root_and_order_witness:
  "deserialize_key ''users/user1'' = Inr \<lparr>main_key = ''users'', subkeys = [''user1'']\<rparr>
   \<and> ''users'' \<noteq> []
   \<and> join CHR ''/'' [''users'', ''user1''] = strip ''users/user1''
   \<and> get_data [(''users'', JObj [(''user1'', JStr ''u'')])] ''users/user1'' = Inr (JStr ''u'')"
proof -
  let ?k = "\<lparr>main_key = ''users'', subkeys = [''user1'']\<rparr>"
  have k: "deserialize_key ''users/user1'' = Inr ?k"
    by code_simp
  have m: "map_of [(''users'', JObj [(''user1'', JStr ''u'')])] (main_key ?k)
             = Some (JObj [(''user1'', JStr ''u'')])
           \<and> subkeys ?k = ''user1'' # []"
    by simp
  from deserialize_key_root_and_order [OF k] m
  have "join CHR ''/'' (main_key ?k # subkeys ?k) = strip ''users/user1''"
    and "get_data [(''users'', JObj [(''user1'', JStr ''u'')])] ''users/user1''
         = (if dict_get [(''user1'', JStr ''u'')] ''user1'' JNull = JNull then Inr JNull
            else get_loop (dict_get [(''user1'', JStr ''u'')] ''user1'' JNull) [])"
    by blast+
  with k show ?thesis by (simp add: dict_get_def)
qed

section \<open>Deleting twice\<close>

text \<open>
  Claim C6.  When \<open>delete_data\<close> returns, a second \<open>delete_data\<close> with the same key
  returns \<open>True\<close> and leaves in the file the document that the first one wrote.
  With no sub-keys and a root key that is not in the document, \<open>delete_data\<close>
  returns \<open>True\<close> and the document is the one that was there.
\<close>

theorem delete_data_idempotent:
  assumes "delete_data D key = (Inr b, D')"
  shows "delete_data D' key = (Inr True, D')
       \<and> (\<forall>k. deserialize_key key = Inr k \<and> subkeys k = [] \<and> \<not> dict_contains D (main_key k)
              \<longrightarrow> delete_data D key = (Inr True, D))"
proof -
  obtain k where k: "deserialize_key key = Inr k"
    using deserialize_key_total by blast
  have 1: "delete_data D' key = (Inr True, D')"
  proof (cases "subkeys k = []")
    case True
    with assms k have "D' = dict_pop D (main_key k)"
      by (simp add: delete_data_def update_database_def)
    with True k show ?thesis
      by (simp add: delete_data_def update_database_def dict_pop_twice)
  next
    case False
    with assms k obtain cur c where cur: "map_of D (main_key k) = Some cur"
      and c: "descend cur (butlast (subkeys k))
                (final_op ''delete'' (last (subkeys k)) (JStr '''')) = Inr c"
      and D': "D' = dict_set D (main_key k) c"
      by (auto simp: delete_data_def find_nested_data_def update_database_def
               split: option.splits sum.splits)
    from c have "descend c (butlast (subkeys k))
                   (final_op ''delete'' (last (subkeys k)) (JStr '''')) = Inr c"
      by (rule descend_idem) (rule final_op_delete_idem)
    with False k D' show ?thesis
      by (simp add: delete_data_def find_nested_data_def update_database_def
                    map_of_dict_set dict_set_twice)
  qed
  have 2: "\<forall>k. deserialize_key key = Inr k \<and> subkeys k = [] \<and> \<not> dict_contains D (main_key k)
              \<longrightarrow> delete_data D key = (Inr True, D)"
    by (simp add: delete_data_def update_database_def dict_contains_def dict_pop_absent)
  from 1 2 show ?thesis by blast
qed

theorem delete_data_idempotent_witness:
  "delete_data [(''users'', JObj [(''user1'', JObj [(''age'', JStr ''30'')])])] ''users/user1/age''
     = (Inr True, [(''users'', JObj [(''user1'', JObj [])])])
   \<and> delete_data [(''users'', JObj [(''user1'', JObj [])])] ''users/user1/age''
     = (Inr True, [(''users'', JObj [(''user1'', JObj [])])])
   \<and> deserialize_key ''other'' = Inr \<lparr>main_key = ''other'', subkeys = []\<rparr>
   \<and> \<not> dict_contains [(''users'', JObj [])] ''other''
   \<and> delete_data [(''users'', JObj [])] ''other'' = (Inr True, [(''users'', JObj [])])"
proof -
  let ?k = "\<lparr>main_key = ''other'', subkeys = []\<rparr>"
  have d: "delete_data [(''users'', JObj [(''user1'', JObj [(''age'', JStr ''30'')])])]
             ''users/user1/age''
           = (Inr True, [(''users'', JObj [(''user1'', JObj [])])])"
    by code_simp
  have e: "delete_data [(''users'', JObj [])] ''other'' = (Inr True, [(''users'', JObj [])])"
    by code_simp
  have k: "deserialize_key ''other'' = Inr ?k \<and> subkeys ?k = []
           \<and> \<not> dict_contains [(''users'', JObj [])] (main_key ?k)"
    by code_simp
  from delete_data_idempotent [OF d]
  have 1: "delete_data [(''users'', JObj [(''user1'', JObj [])])] ''users/user1/age''
           = (Inr True, [(''users'', JObj [(''user1'', JObj [])])])"
    by blast
  from delete_data_idempotent [OF e] k
  have 2: "delete_data [(''users'', JObj [])] ''other'' = (Inr True, [(''users'', JObj [])])"
    by blast
  from d 1 2 k show ?thesis by simp
qed

section \<open>Reading what was written\<close>

text \<open>
  Claim C1.  When the root key is in the document and \<open>set_data\<close> returns, a
  \<open>get_data\<close> with the same key on the document now in the file returns the value
  that was written.  With no sub-keys the new document is the old one with the
  value stored under the root key.  With sub-keys, every level of the path that was
  missing before is in the new document a dictionary made for this write: it holds
  the rest of the path down to the value and nothing else.
\<close>

theorem set_data_then_get_data:
  assumes "deserialize_key key = Inr k" and "dict_contains D (main_key k)"
    and "set_data D key v = (Inr b, D')"
  shows "get_data D' key = Inr v
     \<and> (subkeys k = [] \<longrightarrow> D' = dict_set D (main_key k) v)
     \<and> (\<forall>P Q. subkeys k = P @ Q \<and> P \<noteq> [] \<and> Q \<noteq> []
               \<and> lookup_path (JObj D) (main_key k # P) = None
              \<longrightarrow> lookup_path (JObj D') (main_key k # P) = Some (chain Q v))"
proof (cases "subkeys k = []")
  case True
  with assms have D': "D' = dict_set D (main_key k) v"
    by (simp add: set_data_root_eq)
  with assms(1) True have "get_data D' key = Inr v"
    by (simp add: get_data_def dict_get_def map_of_dict_set)
  with D' True show ?thesis by simp
next
  case False
  let ?S = "subkeys k"
  let ?f = "final_op ''set'' (last ?S) v"
  from assms(2) obtain cur where cur: "map_of D (main_key k) = Some cur"
    by (auto simp: dict_contains_def)
  from assms(3) set_data_nested_eq [OF assms(1) False cur, of v]
  obtain c where c: "descend cur (butlast ?S) ?f = Inr c"
    and D': "D' = dict_set D (main_key k) c"
    by (auto split: sum.splits)
  from c have "is_dict c" by (rule descend_is_dict)
  moreover from c have "get_loop c (butlast ?S @ [last ?S]) = Inr v"
    by (rule get_loop_descend_set)
  ultimately have 1: "get_data D' key = Inr v"
    using assms(1) False by (simp add: get_data_def dict_get_def D' map_of_dict_set)
  have 3: "\<forall>P Q. ?S = P @ Q \<and> P \<noteq> [] \<and> Q \<noteq> []
               \<and> lookup_path (JObj D) (main_key k # P) = None
              \<longrightarrow> lookup_path (JObj D') (main_key k # P) = Some (chain Q v)"
  proof (intro allI impI, elim conjE)
    fix P Q
    assume S: "?S = P @ Q" and P: "P \<noteq> []" and Q: "Q \<noteq> []"
      and none: "lookup_path (JObj D) (main_key k # P) = None"
    from S Q have bl: "butlast ?S = P @ butlast Q" and la: "last ?S = last Q"
      by (simp_all add: butlast_append)
    from none cur have "lookup_path cur P = None" by simp
    with c P bl obtain y where y: "descend (JObj []) (butlast Q) ?f = Inr y"
      and l: "lookup_path c P = Some y"
      using descend_missing_level [of cur P "butlast Q" ?f c] by auto
    from y la Q have "y = chain Q v"
      by (simp add: descend_fresh_set)
    with l show "lookup_path (JObj D') (main_key k # P) = Some (chain Q v)"
      by (simp add: D' map_of_dict_set)
  qed
  from 1 3 False show ?thesis by blast
qed

theorem set_data_then_get_data_witness:
  "deserialize_key ''users/u2/a/b'' = Inr \<lparr>main_key = ''users'', subkeys = [''u2'', ''a'', ''b'']\<rparr>
   \<and> dict_contains [(''users'', JObj [(''user1'', JStr ''x'')])] ''users''
   \<and> set_data [(''users'', JObj [(''user1'', JStr ''x'')])] ''users/u2/a/b'' (JStr ''31'')
       = (Inr True,
          [(''users'', JObj [(''user1'', JStr ''x''),
                             (''u2'', JObj [(''a'', JObj [(''b'', JStr ''31'')])])])])
   \<and> get_data [(''users'', JObj [(''user1'', JStr ''x''),
                                 (''u2'', JObj [(''a'', JObj [(''b'', JStr ''31'')])])])]
        ''users/u2/a/b'' = Inr (JStr ''31'')
   \<and> lookup_path (JObj [(''users'', JObj [(''user1'', JStr ''x'')])]) [''users'', ''u2''] = None
   \<and> lookup_path (JObj [(''users'', JObj [(''user1'', JStr ''x''),
                                 (''u2'', JObj [(''a'', JObj [(''b'', JStr ''31'')])])])])
        [''users'', ''u2''] = Some (chain [''a'', ''b''] (JStr ''31''))"
proof -
  let ?k = "\<lparr>main_key = ''users'', subkeys = [''u2'', ''a'', ''b'']\<rparr>"
  let ?D = "[(''users'', JObj [(''user1'', JStr ''x'')])]"
  let ?D' = "[(''users'', JObj [(''user1'', JStr ''x''),
                               (''u2'', JObj [(''a'', JObj [(''b'', JStr ''31'')])])])]"
  have k: "deserialize_key ''users/u2/a/b'' = Inr ?k"
    by code_simp
  have a: "dict_contains ?D (main_key ?k)"
    by code_simp
  have s: "set_data ?D ''users/u2/a/b'' (JStr ''31'') = (Inr True, ?D')"
    by code_simp
  have p: "subkeys ?k = [''u2''] @ [''a'', ''b''] \<and> [''u2''] \<noteq> [] \<and> [''a'', ''b''] \<noteq> []
           \<and> lookup_path (JObj ?D) (main_key ?k # [''u2'']) = None"
    by simp
  from set_data_then_get_data [OF k a s] p
  have "get_data ?D' ''users/u2/a/b'' = Inr (JStr ''31'')"
    and "lookup_path (JObj ?D') (main_key ?k # [''u2'']) = Some (chain [''a'', ''b''] (JStr ''31''))"
    by blast+
  with k a s p show ?thesis by simp
qed

section \<open>Deleting below a root key\<close>

text \<open>
  Claim C5 says that \<open>delete_data\<close> with sub-keys, on a root key that is in the
  document, always writes the document back and returns success.  The walk has no
  test that the values it meets are dictionaries: in the document \<open>{"a": "x"}\<close> the
  key \<open>a/b\<close> calls \<open>"x".pop\<close>, which raises \<open>AttributeError\<close>, and nothing is written.
\<close>

theorem delete_data_scalar_root_value:
  "deserialize_key ''a/b'' = Inr \<lparr>main_key = ''a'', subkeys = [''b'']\<rparr>
   \<and> dict_contains [(''a'', JStr ''x'')] ''a''
   \<and> delete_data [(''a'', JStr ''x'')] ''a/b'' = (Inl AttributeError, [(''a'', JStr ''x'')])"
  by code_simp

text \<open>
  Claim C5 as amended.  Let the root key be in the document with the value \<open>cur\<close>
  and let the key have sub-keys.  \<open>delete_data\<close> returns \<open>True\<close> exactly when every
  value that is there on the path of all sub-keys but the last, \<open>cur\<close> included, is
  a dictionary; otherwise it raises \<open>AttributeError\<close> or \<open>TypeError\<close> and the file
  keeps its document.  When it returns: the path of all sub-keys leads nowhere in
  the new document; the dictionary in which the last sub-key is looked up, if it
  was there before, has lost that key and nothing else (nothing at all when the key
  was not in it); every level that was missing before is now a dictionary made by
  the walk, empty at the last level and holding just the next sub-key above it;
  and a \<open>set_data\<close> with the same key succeeds for every value, after which
  \<open>delete_data\<close> leaves the same document, so that both walk the same way.
\<close>

theorem delete_data_nested:
  assumes "deserialize_key key = Inr k" and "subkeys k \<noteq> []"
    and "map_of D (main_key k) = Some cur"
  shows "((\<exists>D'. delete_data D key = (Inr True, D')) \<longleftrightarrow> navigable cur (butlast (subkeys k)))
     \<and> (\<not> navigable cur (butlast (subkeys k))
          \<longrightarrow> delete_data D key = (Inl AttributeError, D) \<or> delete_data D key = (Inl TypeError, D))
     \<and> (\<forall>D'. delete_data D key = (Inr True, D') \<longrightarrow>
           lookup_path (JObj D') (main_key k # subkeys k) = None
         \<and> (\<forall>m. lookup_path (JObj D) (main_key k # butlast (subkeys k)) = Some (JObj m)
               \<longrightarrow> lookup_path (JObj D') (main_key k # butlast (subkeys k))
                     = Some (JObj (dict_pop m (last (subkeys k)))))
         \<and> (\<forall>P Q. subkeys k = P @ Q \<and> Q \<noteq> [] \<and> lookup_path (JObj D) (main_key k # P) = None
               \<longrightarrow> lookup_path (JObj D') (main_key k # P) = Some (chain (butlast Q) (JObj [])))
         \<and> (\<forall>v. \<exists>D''. set_data D key v = (Inr True, D'')
                     \<and> delete_data D'' key = (Inr True, D')))"
proof -
  let ?K = "main_key k"
  let ?S = "subkeys k"
  let ?f = "final_op ''delete'' (last ?S) (JStr '''')"
  note del = delete_data_nested_eq [OF assms]
  have ok: "(\<exists>c. descend cur (butlast ?S) ?f = Inr c) = navigable cur (butlast ?S)"
    by (rule descend_succeeds_iff) (rule final_op_delete_succeeds)
  have 1: "(\<exists>D'. delete_data D key = (Inr True, D')) \<longleftrightarrow> navigable cur (butlast ?S)"
    unfolding ok [symmetric] del by (auto split: sum.splits)
  have 2: "\<not> navigable cur (butlast ?S)
          \<longrightarrow> delete_data D key = (Inl AttributeError, D) \<or> delete_data D key = (Inl TypeError, D)"
  proof
    assume "\<not> navigable cur (butlast ?S)"
    with ok obtain e where e: "descend cur (butlast ?S) ?f = Inl e"
      by (cases "descend cur (butlast ?S) ?f") auto
    from descend_delete_error [OF e] e del
    show "delete_data D key = (Inl AttributeError, D) \<or> delete_data D key = (Inl TypeError, D)"
      by auto
  qed
  have 3: "lookup_path (JObj D') (?K # ?S) = None
         \<and> (\<forall>m. lookup_path (JObj D) (?K # butlast ?S) = Some (JObj m)
               \<longrightarrow> lookup_path (JObj D') (?K # butlast ?S)
                     = Some (JObj (dict_pop m (last ?S))))
         \<and> (\<forall>P Q. ?S = P @ Q \<and> Q \<noteq> [] \<and> lookup_path (JObj D) (?K # P) = None
               \<longrightarrow> lookup_path (JObj D') (?K # P) = Some (chain (butlast Q) (JObj [])))
         \<and> (\<forall>v. \<exists>D''. set_data D key v = (Inr True, D'')
                     \<and> delete_data D'' key = (Inr True, D'))"
    if d: "delete_data D key = (Inr True, D')" for D'
  proof -
    from d del obtain c where c: "descend cur (butlast ?S) ?f = Inr c"
      and D': "D' = dict_set D ?K c"
      by (auto split: sum.splits)
    have up: "lookup_path (JObj D') (?K # P) = lookup_path c P" for P
      by (simp add: D' map_of_dict_set)
    have down: "lookup_path (JObj D) (?K # P) = lookup_path cur P" for P
      by (simp add: assms(3))
    have a: "lookup_path (JObj D') (?K # ?S) = None"
    proof -
      from descend_final_level [OF c] obtain x y where fx: "?f x = Inr y"
        and l: "lookup_path c (butlast ?S) = Some y"
        by blast
      from fx obtain d where "y = JObj (dict_pop d (last ?S))"
        by (cases x) (auto simp: final_op_def)
      then have "lookup_path y [last ?S] = None"
        by (simp add: map_of_dict_pop)
      with l have "lookup_path c (butlast ?S @ [last ?S]) = None"
        by (simp add: lookup_path_append)
      with assms(2) have "lookup_path c ?S = None" by simp
      then show ?thesis by (simp only: up)
    qed
    have b: "\<forall>m. lookup_path (JObj D) (?K # butlast ?S) = Some (JObj m)
               \<longrightarrow> lookup_path (JObj D') (?K # butlast ?S)
                     = Some (JObj (dict_pop m (last ?S)))"
    proof (intro allI impI)
      fix m
      assume "lookup_path (JObj D) (?K # butlast ?S) = Some (JObj m)"
      then have "lookup_path cur (butlast ?S) = Some (JObj m)" by (simp only: down)
      from descend_existing_level [OF c this] obtain y where "?f (JObj m) = Inr y"
        and "lookup_path c (butlast ?S) = Some y"
        by blast
      then show "lookup_path (JObj D') (?K # butlast ?S) = Some (JObj (dict_pop m (last ?S)))"
        by (simp only: up) (auto simp: final_op_def)
    qed
    have e: "\<forall>P Q. ?S = P @ Q \<and> Q \<noteq> [] \<and> lookup_path (JObj D) (?K # P) = None
               \<longrightarrow> lookup_path (JObj D') (?K # P) = Some (chain (butlast Q) (JObj []))"
    proof (intro allI impI, elim conjE)
      fix P Q
      assume S: "?S = P @ Q" and Q: "Q \<noteq> []"
        and none: "lookup_path (JObj D) (?K # P) = None"
      from none have n: "lookup_path cur P = None" by (simp only: down)
      then have P: "P \<noteq> []" by auto
      from S Q have bl: "butlast ?S = P @ butlast Q" and la: "last ?S = last Q"
        by (simp_all add: butlast_append)
      from c bl have "descend cur (P @ butlast Q) ?f = Inr c" by simp
      from descend_missing_level [OF this P n]
      obtain y where "descend (JObj []) (butlast Q) ?f = Inr y" and "lookup_path c P = Some y"
        by blast
      then show "lookup_path (JObj D') (?K # P) = Some (chain (butlast Q) (JObj []))"
        by (simp only: up) (simp add: descend_fresh_delete)
    qed
    have g: "\<forall>v. \<exists>D''. set_data D key v = (Inr True, D'')
                     \<and> delete_data D'' key = (Inr True, D')"
    proof
      fix v
      let ?g = "final_op ''set'' (last ?S) v"
      from c ok have "navigable cur (butlast ?S)" by blast
      moreover have "(\<exists>c. descend cur (butlast ?S) ?g = Inr c) = navigable cur (butlast ?S)"
        by (rule descend_succeeds_iff) (rule final_op_set_succeeds)
      ultimately obtain c1 where c1: "descend cur (butlast ?S) ?g = Inr c1"
        by blast
      let ?D'' = "dict_set D ?K c1"
      from c1 have s: "set_data D key v = (Inr True, ?D'')"
        by (simp add: set_data_nested_eq [OF assms])
      have m: "map_of ?D'' ?K = Some c1"
        by (simp add: map_of_dict_set)
      from descend_delete_after_set [OF c1, of "JStr ''''"] c
      have "descend c1 (butlast ?S) ?f = Inr c" by simp
      then have "delete_data ?D'' key = (Inr True, D')"
        by (simp add: delete_data_nested_eq [OF assms(1,2) m] D' dict_set_twice)
      with s show "\<exists>D''. set_data D key v = (Inr True, D'')
                     \<and> delete_data D'' key = (Inr True, D')"
        by blast
    qed
    from a b e g show ?thesis by blast
  qed
  from 1 2 3 show ?thesis by blast
qed

theorem delete_data_nested_witness:
  "deserialize_key ''users/u2/a/b'' = Inr \<lparr>main_key = ''users'', subkeys = [''u2'', ''a'', ''b'']\<rparr>
   \<and> map_of [(''users'', JObj [(''user1'', JStr ''x'')])] ''users''
       = Some (JObj [(''user1'', JStr ''x'')])
   \<and> navigable (JObj [(''user1'', JStr ''x'')]) [''u2'', ''a'']
   \<and> lookup_path (JObj [(''users'', JObj [(''user1'', JStr ''x'')])]) [''users'', ''u2'', ''a''] = None
   \<and> (\<exists>D'. delete_data [(''users'', JObj [(''user1'', JStr ''x'')])] ''users/u2/a/b''
               = (Inr True, D')
           \<and> lookup_path (JObj D') [''users'', ''u2'', ''a'', ''b''] = None
           \<and> lookup_path (JObj D') [''users'', ''u2'', ''a''] = Some (JObj [])
           \<and> (\<exists>D''. set_data [(''users'', JObj [(''user1'', JStr ''x'')])] ''users/u2/a/b'' JNull
                        = (Inr True, D'')
                    \<and> delete_data D'' ''users/u2/a/b'' = (Inr True, D')))"
proof -
  let ?k = "\<lparr>main_key = ''users'', subkeys = [''u2'', ''a'', ''b'']\<rparr>"
  let ?D = "[(''users'', JObj [(''user1'', JStr ''x'')])]"
  let ?cur = "JObj [(''user1'', JStr ''x'')]"
  have k: "deserialize_key ''users/u2/a/b'' = Inr ?k"
    by code_simp
  have n: "subkeys ?k \<noteq> []"
    by simp
  have c: "map_of ?D (main_key ?k) = Some ?cur"
    by simp
  have nav: "navigable ?cur (butlast (subkeys ?k))"
    by simp
  have p: "subkeys ?k = [''u2'', ''a''] @ [''b''] \<and> [''b''] \<noteq> []
           \<and> lookup_path (JObj ?D) (main_key ?k # [''u2'', ''a'']) = None"
    by simp
  note t = delete_data_nested [OF k n c]
  from t nav obtain D' where d: "delete_data ?D ''users/u2/a/b'' = (Inr True, D')"
    by blast
  from t d p have 1: "lookup_path (JObj D') (main_key ?k # subkeys ?k) = None"
    and 2: "lookup_path (JObj D') (main_key ?k # [''u2'', ''a''])
              = Some (chain (butlast [''b'']) (JObj []))"
    and 3: "\<exists>D''. set_data ?D ''users/u2/a/b'' JNull = (Inr True, D'')
                 \<and> delete_data D'' ''users/u2/a/b'' = (Inr True, D')"
    by blast+
  from d 1 2 3 have "\<exists>D'. delete_data ?D ''users/u2/a/b'' = (Inr True, D')
           \<and> lookup_path (JObj D') [''users'', ''u2'', ''a'', ''b''] = None
           \<and> lookup_path (JObj D') [''users'', ''u2'', ''a''] = Some (JObj [])
           \<and> (\<exists>D''. set_data ?D ''users/u2/a/b'' JNull = (Inr True, D'')
                    \<and> delete_data D'' ''users/u2/a/b'' = (Inr True, D'))"
    by (intro exI [of _ D']) simp
  with k c nav p show ?thesis by simp
qed

end
